theory Spec2Isabelle
  imports Main
begin

section \<open>Shared model: errors and white space\<close>

text \<open>
  The packages \<^verbatim>\<open>htmlfilter\<close> and \<^verbatim>\<open>xmlfilter\<close> pull tokens from a tokenizer
  (\<^verbatim>\<open>html.Tokenizer\<close>, \<^verbatim>\<open>xml.Decoder\<close>). A tokenizer is modelled by the finite list
  of tokens it still has to deliver together with the error value it reports once that
  list is used up (\<^verbatim>\<open>io.EOF\<close> or a failure of the reader or the lexer).

  The errors the filters build with \<^verbatim>\<open>fmt.Errorf\<close> are kept as one constructor per
  format string, carrying the formatted arguments; \<open>'n\<close> is the type of tag names
  (a string in \<^verbatim>\<open>htmlfilter\<close>, an \<^verbatim>\<open>xml.Name\<close> in \<^verbatim>\<open>xmlfilter\<close>).
\<close>

datatype io_error = EOF | Failure string

datatype 'n error =
    TokenizerError io_error
  | UnclosedTags "'n list"
  | UnexpectedClosingTag 'n
  | ExpectingClosingTag 'n 'n

text \<open>
  \<^verbatim>\<open>strings.TrimSpace\<close> and \<^verbatim>\<open>bytes.TrimSpace\<close> remove the leading and the trailing
  white space "as defined by Unicode". A Go string is a sequence of bytes, so the white
  space code points are listed by their UTF-8 encodings: U+0009 to U+000D, U+0020, U+0085,
  U+00A0, U+1680, U+2000 to U+200A, U+2028, U+2029, U+202F, U+205F and U+3000.
\<close>

definition White_Space :: "string list" where
  "White_Space =
     [[CHR 0x09], [CHR 0x0A], [CHR 0x0B], [CHR 0x0C], [CHR 0x0D], [CHR 0x20],
      [CHR 0xC2, CHR 0x85], [CHR 0xC2, CHR 0xA0],
      [CHR 0xE1, CHR 0x9A, CHR 0x80],
      [CHR 0xE2, CHR 0x80, CHR 0x80], [CHR 0xE2, CHR 0x80, CHR 0x81],
      [CHR 0xE2, CHR 0x80, CHR 0x82], [CHR 0xE2, CHR 0x80, CHR 0x83],
      [CHR 0xE2, CHR 0x80, CHR 0x84], [CHR 0xE2, CHR 0x80, CHR 0x85],
      [CHR 0xE2, CHR 0x80, CHR 0x86], [CHR 0xE2, CHR 0x80, CHR 0x87],
      [CHR 0xE2, CHR 0x80, CHR 0x88], [CHR 0xE2, CHR 0x80, CHR 0x89],
      [CHR 0xE2, CHR 0x80, CHR 0x8A],
      [CHR 0xE2, CHR 0x80, CHR 0xA8], [CHR 0xE2, CHR 0x80, CHR 0xA9],
      [CHR 0xE2, CHR 0x80, CHR 0xAF], [CHR 0xE2, CHR 0x81, CHR 0x9F],
      [CHR 0xE3, CHR 0x80, CHR 0x80]]"

text \<open>
  \<open>leadingSpace ws s\<close> is the width in bytes of the white space rune \<open>s\<close> starts with,
  and 0 when \<open>s\<close> starts with none; \<open>TrimLeft\<close> drops such runes while there is one,
  \<open>TrimRight\<close> does the same from the end of the string.
\<close>

fun leadingSpace :: "string list \<Rightarrow> string \<Rightarrow> nat" where
  "leadingSpace [] s = 0"
| "leadingSpace (e # es) s =
     (if e \<noteq> [] \<and> take (length e) s = e then length e else leadingSpace es s)"

function TrimLeft :: "string list \<Rightarrow> string \<Rightarrow> string" where
  "TrimLeft ws s =
     (if leadingSpace ws s = 0 then s else TrimLeft ws (drop (leadingSpace ws s) s))"
  by pat_completeness auto
termination
proof (relation "measure (\<lambda>(ws, s). length s)")
  show "wf (measure (\<lambda>(ws, s). length s))" by simp
next
  fix ws :: "string list" and s :: string
  assume a: "leadingSpace ws s \<noteq> 0"
  have "leadingSpace ws s \<le> length s"
  proof (induction ws)
    case Nil
    show ?case by simp
  next
    case (Cons e es)
    have "take (length e) s = e \<Longrightarrow> length e \<le> length s"
      by (metis length_take min.cobounded1)
    with Cons show ?case by simp
  qed
  with a show "((ws, drop (leadingSpace ws s) s), (ws, s)) \<in> measure (\<lambda>(ws, s). length s)"
    by simp
qed

definition TrimRight :: "string list \<Rightarrow> string \<Rightarrow> string" where
  "TrimRight ws s = rev (TrimLeft (map rev ws) (rev s))"

definition TrimSpace :: "string \<Rightarrow> string" where
  "TrimSpace s = TrimRight White_Space (TrimLeft White_Space s)"

text \<open>
  The loop \<^verbatim>\<open>for _, v := range names { if v == x { ... } }\<close> where the body leaves
  the loop at the first hit and does nothing else: does it find \<open>x\<close>?
\<close>

fun rangeFinds :: "'n list \<Rightarrow> 'n \<Rightarrow> bool" where
  "rangeFinds [] x = False"
| "rangeFinds (v # vs) x = (if v = x then True else rangeFinds vs x)"

section \<open>Package htmlfilter\<close>

text \<open>
  An \<^verbatim>\<open>html.Token\<close> has a type, its data (the tag name of a tag, the text of a text
  token) and its attributes, which the filter carries along and never inspects.
  \<open>Next\<close> stands for \<^verbatim>\<open>t.Next()\<close> followed by \<^verbatim>\<open>t.Token()\<close> or \<^verbatim>\<open>t.TagName()\<close>:
  it hands out the next token and the tokenizer that remains; when nothing is left the
  token has type \<open>ErrorToken\<close> and \<open>Err\<close> tells why.
\<close>

datatype TokenType =
    ErrorToken | TextToken | StartTagToken | EndTagToken
  | SelfClosingTagToken | CommentToken | DoctypeToken

record html_Token =
  Type :: TokenType
  Data :: string
  Attr :: "(string \<times> string) list"

record Tokenizer =
  input :: "html_Token list"
  Err :: io_error

definition Next :: "Tokenizer \<Rightarrow> html_Token \<times> Tokenizer" where
  "Next t = (case input t of
      [] \<Rightarrow> (\<lparr>Type = ErrorToken, Data = [], Attr = []\<rparr>, t)
    | tt # rest \<Rightarrow> (tt, t\<lparr>input := rest\<rparr>))"

datatype Node_html = Node_html (Token_html: html_Token) (List_html: "Node_html list")

text \<open>
  \<^verbatim>\<open>Node.String\<close> panics on a token type it does not expect: the result is \<open>None\<close>.
  The children are written with \<^verbatim>\<open>fmt.Fprintf(b, "%s", v)\<close>; the rendering of a node
  with a child that cannot be rendered is left undefined (\<open>None\<close>) as well.
\<close>

fun String_html :: "Node_html \<Rightarrow> string option" where
  "String_html (Node_html tok lst) =
     (case Type tok of
        SelfClosingTagToken \<Rightarrow> Some (''<'' @ Data tok @ ''/>'')
      | StartTagToken \<Rightarrow>
          (case those (map String_html lst) of
             None \<Rightarrow> None
           | Some ss \<Rightarrow> Some (''<'' @ Data tok @ ''>'' @ concat ss @ ''</'' @ Data tok @ ''>''))
      | TextToken \<Rightarrow> Some (Data tok)
      | _ \<Rightarrow> None)"

text \<open>
  \<^verbatim>\<open>popTag\<close> removes an expected tag name from the end of the list of open tags.
\<close>

definition popTag :: "string list \<Rightarrow> string \<Rightarrow> string error + string list" where
  "popTag tags tag =
     (let n = length tags in
      if n = 0 then Inl (UnexpectedClosingTag tag)
      else let lastTag = tags ! (n - 1) in
           if lastTag \<noteq> tag then Inl (ExpectingClosingTag lastTag tag)
           else Inr (take (n - 1) tags))"

text \<open>
  \<^verbatim>\<open>NextStartTag\<close> skips everything until a start tag or a self-closing tag of one of
  the given names; the only other way out of its loop is the tokenizer's error.
\<close>

function NextStartTag ::
    "Tokenizer \<Rightarrow> string list \<Rightarrow> string error + (html_Token \<times> Tokenizer)" where
  "NextStartTag t tagNames =
     (case Next t of (tt, t') \<Rightarrow>
        (case Type tt of
           ErrorToken \<Rightarrow> Inl (TokenizerError (Err t'))
         | SelfClosingTagToken \<Rightarrow>
             if rangeFinds tagNames (Data tt) then Inr (tt, t') else NextStartTag t' tagNames
         | StartTagToken \<Rightarrow>
             if rangeFinds tagNames (Data tt) then Inr (tt, t') else NextStartTag t' tagNames
         | _ \<Rightarrow> NextStartTag t' tagNames))"
  by pat_completeness auto
termination
proof (relation "measure (\<lambda>(t, tagNames). length (input t))", goal_cases)
  case 1
  show ?case by simp
qed (auto simp: Next_def split: list.splits)

text \<open>
  The body of \<^verbatim>\<open>TextInTag\<close> is a loop over the tokens with two variables, the stack of
  open tags and the list \<open>c\<close> of nodes built so far: \<open>TextInTag_loop\<close> is that loop, from
  its test \<^verbatim>\<open>len(stack) > 0\<close> on. \<open>SelfClosingTagLoop\<close> and \<open>StartTagLoop\<close> are the
  loops over \<^verbatim>\<open>tagNames\<close> inside the cases of a self-closing and of a start tag; both end
  at the first name that matches. In \<open>StartTagLoop\<close> the match calls \<^verbatim>\<open>TextInTag\<close>
  again, on the tokenizer as it is, with a stack that holds the matched tag only and no
  nodes, and the loop of the caller goes on with the tokenizer the call leaves.
\<close>

fun SelfClosingTagLoop :: "string list \<Rightarrow> html_Token \<Rightarrow> Node_html list \<Rightarrow> Node_html list" where
  "SelfClosingTagLoop [] tt c = c"
| "SelfClosingTagLoop (v # vs) tt c =
     (if v = Data tt then c @ [Node_html tt []] else SelfClosingTagLoop vs tt c)"

function TextInTag_loop ::
    "string list \<Rightarrow> string list \<Rightarrow> Node_html list \<Rightarrow> Tokenizer
       \<Rightarrow> string error + (Node_html list \<times> Tokenizer)"
  and StartTagLoop ::
    "string list \<Rightarrow> string list \<Rightarrow> html_Token \<Rightarrow> string list \<Rightarrow> Node_html list \<Rightarrow> Tokenizer
       \<Rightarrow> string error + (Node_html list \<times> Tokenizer)"
where
  "TextInTag_loop tagNames stack c t =
     (if length stack > 0 then
        (case Next t of (tt, t') \<Rightarrow>
          (case Type tt of
             ErrorToken \<Rightarrow> Inl (UnclosedTags stack)
           | SelfClosingTagToken \<Rightarrow>
               TextInTag_loop tagNames stack (SelfClosingTagLoop tagNames tt c) t'
           | StartTagToken \<Rightarrow> StartTagLoop tagNames tagNames tt stack c t'
           | EndTagToken \<Rightarrow>
               (case popTag stack (Data tt) of
                  Inl e \<Rightarrow> Inl e
                | Inr stack' \<Rightarrow> TextInTag_loop tagNames stack' c t')
           | TextToken \<Rightarrow>
               (let tt' = tt\<lparr>Data := TrimSpace (Data tt)\<rparr> in
                TextInTag_loop tagNames stack
                  (if length (Data tt') > 0 then c @ [Node_html tt' []] else c) t')
           | _ \<Rightarrow> TextInTag_loop tagNames stack c t'))
      else Inr (c, t))"
| "StartTagLoop tagNames [] tt stack c t =
     TextInTag_loop tagNames (stack @ [Data tt]) c t"
| "StartTagLoop tagNames (v # vs) tt stack c t =
     (if v = Data tt then
        (case TextInTag_loop tagNames [Data tt] [] t of
           Inl e \<Rightarrow> Inl e
         | Inr (list, t') \<Rightarrow> TextInTag_loop tagNames stack (c @ [Node_html tt list]) t')
      else StartTagLoop tagNames vs tt stack c t)"
  by pat_completeness auto
termination
proof -
  have less: "length (input t') < length (input t)"
    if "(tt, t') = Next t" and "Type tt \<noteq> ErrorToken" for tt t' t
    using that by (auto simp: Next_def split: list.splits)
  have le: "TextInTag_loop_StartTagLoop_dom (Inl (tagNames, stack, c, t)) \<Longrightarrow>
              TextInTag_loop tagNames stack c t = Inr (out, t1) \<Longrightarrow>
              length (input t1) \<le> length (input t)"
    and "TextInTag_loop_StartTagLoop_dom (Inr (tagNames, vs, tt, stack, c, t)) \<Longrightarrow>
              StartTagLoop tagNames vs tt stack c t = Inr (out, t1) \<Longrightarrow>
              length (input t1) \<le> length (input t)"
    for tagNames stack c t out t1 vs tt
  proof (induction tagNames stack c t and tagNames vs tt stack c t
         arbitrary: out t1 and out t1 rule: TextInTag_loop_StartTagLoop.pinduct)
    case (1 tagNames stack c t)
    obtain tt t' where nx: "(tt, t') = Next t" by (cases "Next t") auto
    have step: "length (input t') \<le> length (input t)"
      using nx by (auto simp: Next_def split: list.splits)
    note ps = TextInTag_loop.psimps[OF "1.hyps"]
    show ?case
    proof (cases "0 < length stack")
      case False
      with "1.prems" ps show ?thesis by simp
    next
      case True
      note ih = "1.IH"[OF True nx]
      show ?thesis
      proof (cases "Type tt")
        case TextToken
        with "1.prems" ps True nx[symmetric] ih(1)[OF TextToken refl] step show ?thesis
          by (fastforce simp: Let_def)
      next
        case EndTagToken
        with "1.prems" ps True nx[symmetric] ih(3)[OF EndTagToken] step show ?thesis
          by (fastforce split: sum.splits)
      qed (use "1.prems" ps True nx[symmetric] ih step in \<open>fastforce+\<close>)
    qed
  next
    case (2 tagNames tt stack c t)
    then show ?case by (simp add: StartTagLoop.psimps)
  next
    case (3 tagNames v vs tt stack c t)
    then show ?case
      by (fastforce simp: StartTagLoop.psimps split: if_splits sum.splits prod.splits)
  qed
  show ?thesis
    by (relation "inv_image (less_than <*lex*> less_than)
          (\<lambda>x. case x of
              Inl (tagNames, stack, c, t) \<Rightarrow> (length (input t), 0)
            | Inr (tagNames, vs, tt, stack, c, t) \<Rightarrow> (length (input t), Suc (length vs)))")
       (auto dest: less le)
qed

definition TextInTag ::
    "Tokenizer \<Rightarrow> string \<Rightarrow> string list \<Rightarrow> string error + (Node_html list \<times> Tokenizer)" where
  "TextInTag t startTag tagNames = TextInTag_loop tagNames [startTag] [] t"

definition NextTextFilter ::
    "Tokenizer \<Rightarrow> string list \<Rightarrow> string error + (Node_html \<times> Tokenizer)" where
  "NextTextFilter t tagNames =
     (case NextStartTag t tagNames of
        Inl e \<Rightarrow> Inl e
      | Inr (tt, t1) \<Rightarrow>
          (case TextInTag t1 (Data tt) tagNames of
             Inl e \<Rightarrow> Inl e
           | Inr (list, t2) \<Rightarrow> Inr (Node_html tt list, t2)))"

section \<open>Package xmlfilter\<close>

text \<open>
  An \<^verbatim>\<open>xml.Token\<close> is an interface value; the constructor tells its dynamic type. The
  last constructor is a plain Go string, which \<^verbatim>\<open>parseList\<close> stores in a node for
  trimmed character data. \<open>RawToken\<close> is \<^verbatim>\<open>d.RawToken()\<close>: the next token and the
  decoder that remains, or the decoder's error.
\<close>

record xml_Name =
  Space :: string
  Local :: string

record StartElement =
  Name :: xml_Name
  Attr_xml :: "(xml_Name \<times> string) list"

datatype xml_Token =
    Tok_StartElement StartElement
  | Tok_EndElement xml_Name
  | Tok_CharData string
  | Tok_Comment string
  | Tok_ProcInst string string
  | Tok_Directive string
  | Tok_string string

record Decoder =
  tokens :: "xml_Token list"
  err :: io_error

definition RawToken :: "Decoder \<Rightarrow> io_error + (xml_Token \<times> Decoder)" where
  "RawToken d = (case tokens d of
      [] \<Rightarrow> Inl (err d)
    | token # rest \<Rightarrow> Inr (token, d\<lparr>tokens := rest\<rparr>))"

datatype Node_xml = Node_xml (Token_xml: xml_Token) (List_xml: "Node_xml list")

fun String_xml :: "Node_xml \<Rightarrow> string option" where
  "String_xml (Node_xml tok lst) =
     (case tok of
        Tok_StartElement t \<Rightarrow>
          (case those (map String_xml lst) of
             None \<Rightarrow> None
           | Some ss \<Rightarrow>
               Some (''<'' @ Local (Name t) @ ''>'' @ concat ss @ ''</'' @ Local (Name t) @ ''>''))
      | Tok_CharData s \<Rightarrow> Some s
      | Tok_string s \<Rightarrow> Some s
      | _ \<Rightarrow> None)"

definition popName :: "xml_Name list \<Rightarrow> xml_Name \<Rightarrow> xml_Name error + xml_Name list" where
  "popName names name =
     (let n = length names in
      if n = 0 then Inl (UnexpectedClosingTag name)
      else let lastName = names ! (n - 1) in
           if lastName \<noteq> name then Inl (ExpectingClosingTag lastName name)
           else Inr (take (n - 1) names))"

function skipUntilStartElement ::
    "Decoder \<Rightarrow> xml_Name list \<Rightarrow> xml_Name error + (StartElement \<times> Decoder)" where
  "skipUntilStartElement d names =
     (case RawToken d of
        Inl e \<Rightarrow> Inl (TokenizerError e)
      | Inr (t, d') \<Rightarrow>
          (case t of
             Tok_StartElement start \<Rightarrow>
               if rangeFinds names (Name start) then Inr (start, d')
               else skipUntilStartElement d' names
           | _ \<Rightarrow> skipUntilStartElement d' names))"
  by pat_completeness auto
termination
proof (relation "measure (\<lambda>(d, names). length (tokens d))", goal_cases)
  case 1
  show ?case by simp
qed (auto simp: RawToken_def split: list.splits)

text \<open>
  \<open>parseList_loop\<close> is the loop of \<^verbatim>\<open>parseList\<close> with its two variables, the stack and
  the list \<open>c\<close>. \<open>parseList_range\<close> is the loop over \<^verbatim>\<open>names\<close> in the case of a start
  element, with the names still to be compared and the flag \<^verbatim>\<open>found\<close>. This loop has no
  \<^verbatim>\<open>break\<close>: after a match it goes on with the names that are left, on the decoder the
  call of \<^verbatim>\<open>parseList\<close> has left, and every further name equal to the element's calls
  \<^verbatim>\<open>parseList\<close> again.
\<close>

function parseList_loop ::
    "xml_Name list \<Rightarrow> xml_Name list \<Rightarrow> Node_xml list \<Rightarrow> Decoder
       \<Rightarrow> xml_Name error + (Node_xml list \<times> Decoder)"
  and parseList_range ::
    "xml_Name list \<Rightarrow> xml_Name list \<Rightarrow> StartElement \<Rightarrow> bool \<Rightarrow> xml_Name list
       \<Rightarrow> Node_xml list \<Rightarrow> Decoder \<Rightarrow> xml_Name error + (Node_xml list \<times> Decoder)"
where
  "parseList_loop names stack c d =
     (if length stack > 0 then
        (case RawToken d of
           Inl e \<Rightarrow> Inl (UnclosedTags stack)
         | Inr (token, d') \<Rightarrow>
             (case token of
                Tok_StartElement t \<Rightarrow> parseList_range names names t False stack c d'
              | Tok_EndElement name \<Rightarrow>
                  (case popName stack name of
                     Inl e \<Rightarrow> Inl e
                   | Inr stack' \<Rightarrow> parseList_loop names stack' c d')
              | Tok_CharData t \<Rightarrow>
                  (let b = TrimSpace t in
                   parseList_loop names stack
                     (if length b > 0 then c @ [Node_xml (Tok_string b) []] else c) d')
              | _ \<Rightarrow> parseList_loop names stack c d'))
      else Inr (c, d))"
| "parseList_range names [] t found stack c d =
     parseList_loop names (if \<not> found then stack @ [Name t] else stack) c d"
| "parseList_range names (v # vs) t found stack c d =
     (if v = Name t then
        (case parseList_loop names [Name t] [] d of
           Inl e \<Rightarrow> Inl e
         | Inr (list, d') \<Rightarrow>
             parseList_range names vs t True stack (c @ [Node_xml (Tok_StartElement t) list]) d')
      else parseList_range names vs t found stack c d)"
  by pat_completeness auto
termination
proof -
  have less: "length (tokens d') < length (tokens d)"
    if "RawToken d = Inr (token, d')" for token d' d
    using that by (auto simp: RawToken_def split: list.splits)
  have le: "parseList_loop_parseList_range_dom (Inl (names, stack, c, d)) \<Longrightarrow>
              parseList_loop names stack c d = Inr (out, d1) \<Longrightarrow>
              length (tokens d1) \<le> length (tokens d)"
    and "parseList_loop_parseList_range_dom (Inr (names, vs, t, found, stack, c, d)) \<Longrightarrow>
              parseList_range names vs t found stack c d = Inr (out, d1) \<Longrightarrow>
              length (tokens d1) \<le> length (tokens d)"
    for names stack c d out d1 vs t found
  proof (induction names stack c d and names vs t found stack c d
         arbitrary: out d1 and out d1 rule: parseList_loop_parseList_range.pinduct)
    case (1 names stack c d)
    note ps = parseList_loop.psimps[OF "1.hyps"]
    show ?case
    proof (cases "0 < length stack")
      case False
      with "1.prems" ps show ?thesis by simp
    next
      case True
      show ?thesis
      proof (cases "RawToken d")
        case (Inl e)
        with "1.prems" ps True show ?thesis by simp
      next
        case (Inr p)
        obtain token d' where p: "p = (token, d')" by (cases p)
        note rt = Inr[unfolded p]
        note ih = "1.IH"[OF True rt refl]
        from less[OF rt] have step: "length (tokens d') \<le> length (tokens d)" by simp
        show ?thesis
        proof (cases token)
          case (Tok_EndElement name)
          with "1.prems" ps True rt ih(2)[OF Tok_EndElement] step show ?thesis
            by (fastforce split: sum.splits)
        next
          case (Tok_CharData s)
          with "1.prems" ps True rt ih(3)[OF Tok_CharData refl] step show ?thesis
            by (fastforce simp: Let_def)
        qed (use "1.prems" ps True rt ih step in \<open>fastforce+\<close>)
      qed
    qed
  next
    case (2 names t found stack c d)
    then show ?case by (simp add: parseList_range.psimps)
  next
    case (3 names v vs t found stack c d)
    then show ?case
      by (fastforce simp: parseList_range.psimps split: if_splits sum.splits prod.splits)
  qed
  show ?thesis
    by (relation "inv_image (less_than <*lex*> less_than)
          (\<lambda>x. case x of
              Inl (names, stack, c, d) \<Rightarrow> (length (tokens d), 0)
            | Inr (names, vs, t, found, stack, c, d) \<Rightarrow> (length (tokens d), Suc (length vs)))")
       (auto dest: less le)
qed

definition parseList ::
    "Decoder \<Rightarrow> xml_Name list \<Rightarrow> xml_Name list \<Rightarrow> xml_Name error + (Node_xml list \<times> Decoder)" where
  "parseList d names stack = parseList_loop names stack [] d"

definition NextNames ::
    "Decoder \<Rightarrow> xml_Name list \<Rightarrow> xml_Name error + (Node_xml \<times> Decoder)" where
  "NextNames d names =
     (case skipUntilStartElement d names of
        Inl e \<Rightarrow> Inl e
      | Inr (t, d1) \<Rightarrow>
          (case parseList d1 names [Name t] of
             Inl e \<Rightarrow> Inl e
           | Inr (list, d2) \<Rightarrow> Inr (Node_xml (Tok_StartElement t) list, d2)))"

section \<open>Token streams and notions used in the statements\<close>

text \<open>Tokens as the tokenizers deliver them, written briefly.\<close>

definition StartTag :: "string \<Rightarrow> (string \<times> string) list \<Rightarrow> html_Token" where
  "StartTag name attrs = \<lparr>Type = StartTagToken, Data = name, Attr = attrs\<rparr>"

definition SelfClosingTag :: "string \<Rightarrow> (string \<times> string) list \<Rightarrow> html_Token" where
  "SelfClosingTag name attrs = \<lparr>Type = SelfClosingTagToken, Data = name, Attr = attrs\<rparr>"

definition EndTag :: "string \<Rightarrow> html_Token" where
  "EndTag name = \<lparr>Type = EndTagToken, Data = name, Attr = []\<rparr>"

definition Text :: "string \<Rightarrow> html_Token" where
  "Text content = \<lparr>Type = TextToken, Data = content, Attr = []\<rparr>"

definition local :: "string \<Rightarrow> xml_Name" where
  "local name = \<lparr>Space = [], Local = name\<rparr>"

definition StartElem :: "string \<Rightarrow> (xml_Name \<times> string) list \<Rightarrow> StartElement" where
  "StartElem name attrs = \<lparr>Name = local name, Attr_xml = attrs\<rparr>"

text \<open>
  The document
  \<^verbatim>\<open><p><a name="x"/> Foo <sup><u><b> Bar </b></u></sup> <a href="y"> Baz </a></p>\<close>
  as \<^verbatim>\<open>html.Tokenizer\<close> delivers it, with one self-closing token for \<^verbatim>\<open><a name="x"/>\<close>,
  and as \<^verbatim>\<open>xml.Decoder.RawToken\<close> delivers it, with a start element followed by an end
  element in its place.
\<close>

definition doc_html :: "html_Token list" where
  "doc_html =
     [StartTag ''p'' [], SelfClosingTag ''a'' [(''name'', ''x'')], Text '' Foo '',
      StartTag ''sup'' [], StartTag ''u'' [], StartTag ''b'' [], Text '' Bar '',
      EndTag ''b'', EndTag ''u'', EndTag ''sup'', Text '' '',
      StartTag ''a'' [(''href'', ''y'')], Text '' Baz '', EndTag ''a'', EndTag ''p'']"

definition doc_xml :: "xml_Token list" where
  "doc_xml =
     [Tok_StartElement (StartElem ''p'' []),
      Tok_StartElement (StartElem ''a'' [(local ''name'', ''x'')]), Tok_EndElement (local ''a''),
      Tok_CharData '' Foo '',
      Tok_StartElement (StartElem ''sup'' []), Tok_StartElement (StartElem ''u'' []),
      Tok_StartElement (StartElem ''b'' []), Tok_CharData '' Bar '',
      Tok_EndElement (local ''b''), Tok_EndElement (local ''u''), Tok_EndElement (local ''sup''),
      Tok_CharData '' '',
      Tok_StartElement (StartElem ''a'' [(local ''href'', ''y'')]), Tok_CharData '' Baz '',
      Tok_EndElement (local ''a''), Tok_EndElement (local ''p'')]"

text \<open>The trees the two filters build from it.\<close>

definition tree_html :: Node_html where
  "tree_html =
     Node_html (StartTag ''p'' [])
       [Node_html (SelfClosingTag ''a'' [(''name'', ''x'')]) [],
        Node_html (Text ''Foo'') [],
        Node_html (StartTag ''sup'' []) [Node_html (Text ''Bar'') []],
        Node_html (StartTag ''a'' [(''href'', ''y'')]) [Node_html (Text ''Baz'') []]]"

definition tree_xml :: Node_xml where
  "tree_xml =
     Node_xml (Tok_StartElement (StartElem ''p'' []))
       [Node_xml (Tok_StartElement (StartElem ''a'' [(local ''name'', ''x'')])) [],
        Node_xml (Tok_string ''Foo'') [],
        Node_xml (Tok_StartElement (StartElem ''sup'' [])) [Node_xml (Tok_string ''Bar'') []],
        Node_xml (Tok_StartElement (StartElem ''a'' [(local ''href'', ''y'')]))
          [Node_xml (Tok_string ''Baz'') []]]"

text \<open>All the nodes of a tree: the root and, in document order, the nodes below it.\<close>

fun nodes_html :: "Node_html \<Rightarrow> Node_html list" where
  "nodes_html (Node_html tok lst) = Node_html tok lst # concat (map nodes_html lst)"

fun nodes_xml :: "Node_xml \<Rightarrow> Node_xml list" where
  "nodes_xml (Node_xml tok lst) = Node_xml tok lst # concat (map nodes_xml lst)"

text \<open>
  What a node of a returned tree can be: the node of a trimmed, non-empty text without
  children, or the node of a tag with one of the given names. \<open>built_html\<close> and
  \<open>built_xml\<close> say it of every node of a list of trees. The errors the loops of
  \<^verbatim>\<open>TextInTag\<close> and \<^verbatim>\<open>parseList\<close> build themselves are the two of \<open>builder_error\<close>.
\<close>

definition kept_html :: "string list \<Rightarrow> Node_html \<Rightarrow> bool" where
  "kept_html tagNames m =
     (case Type (Token_html m) of
        TextToken \<Rightarrow>
          List_html m = [] \<and> Data (Token_html m) \<noteq> []
          \<and> TrimSpace (Data (Token_html m)) = Data (Token_html m)
      | StartTagToken \<Rightarrow> Data (Token_html m) \<in> set tagNames
      | SelfClosingTagToken \<Rightarrow> Data (Token_html m) \<in> set tagNames
      | _ \<Rightarrow> False)"

definition built_html :: "string list \<Rightarrow> Node_html list \<Rightarrow> bool" where
  "built_html tagNames ys = (\<forall>y\<in>set ys. \<forall>m\<in>set (nodes_html y). kept_html tagNames m)"

definition builder_error :: "'n error \<Rightarrow> bool" where
  "builder_error e = (case e of UnclosedTags s \<Rightarrow> True | ExpectingClosingTag a b \<Rightarrow> True | _ \<Rightarrow> False)"

definition kept_xml :: "xml_Name list \<Rightarrow> Node_xml \<Rightarrow> bool" where
  "kept_xml names m =
     (case Token_xml m of
        Tok_StartElement t \<Rightarrow> Name t \<in> set names
      | Tok_string s \<Rightarrow> List_xml m = [] \<and> s \<noteq> [] \<and> TrimSpace s = s
      | _ \<Rightarrow> False)"

definition built_xml :: "xml_Name list \<Rightarrow> Node_xml list \<Rightarrow> bool" where
  "built_xml names ys = (\<forall>y\<in>set ys. \<forall>m\<in>set (nodes_xml y). kept_xml names m)"

section \<open>Basic facts\<close>

text \<open>
  The equations of the loops rewrite a call into calls of the same function; they are
  applied one round at a time.
\<close>

declare TrimLeft.simps [simp del]
declare NextStartTag.simps [simp del]
declare TextInTag_loop.simps [simp del]
declare skipUntilStartElement.simps [simp del]
declare parseList_loop.simps [simp del]

subsection \<open>White space\<close>

lemma leadingSpace_pos_iff:
  "leadingSpace ws s \<noteq> 0 \<longleftrightarrow> (\<exists>e\<in>set ws. e \<noteq> [] \<and> take (length e) s = e)"
  by (induction ws) auto

lemma leadingSpace_TrimLeft: "leadingSpace ws (TrimLeft ws s) = 0"
  by (induction ws s rule: TrimLeft.induct) (subst TrimLeft.simps, simp)

lemma TrimLeft_id: "leadingSpace ws s = 0 \<Longrightarrow> TrimLeft ws s = s"
  by (subst TrimLeft.simps) simp

lemma TrimLeft_drop: "\<exists>k. TrimLeft ws s = drop k s"
proof (induction ws s rule: TrimLeft.induct)
  case (1 ws s)
  show ?case
  proof (cases "leadingSpace ws s = 0")
    case True
    then have "TrimLeft ws s = drop 0 s" by (simp add: TrimLeft_id)
    then show ?thesis by blast
  next
    case False
    with 1 obtain k where "TrimLeft ws (drop (leadingSpace ws s) s) = drop k (drop (leadingSpace ws s) s)"
      by blast
    with False have "TrimLeft ws s = drop (k + leadingSpace ws s) s"
      by (subst TrimLeft.simps) (simp add: add.commute)
    then show ?thesis by blast
  qed
qed

lemma TrimRight_take: "\<exists>k. TrimRight ws s = take k s"
proof -
  obtain k where "TrimLeft (map rev ws) (rev s) = drop k (rev s)"
    using TrimLeft_drop by blast
  then have "TrimRight ws s = take (length s - k) s"
    by (simp add: TrimRight_def rev_drop)
  then show ?thesis by blast
qed

lemma leadingSpace_take: "leadingSpace ws s = 0 \<Longrightarrow> leadingSpace ws (take k s) = 0"
proof (rule ccontr)
  assume z: "leadingSpace ws s = 0" and "leadingSpace ws (take k s) \<noteq> 0"
  then obtain e where e: "e \<in> set ws" "e \<noteq> []" "take (length e) (take k s) = e"
    unfolding leadingSpace_pos_iff by blast
  have "length (take (length e) (take k s)) = length e" using e(3) by simp
  then have "length e \<le> k" by simp
  with e(3) have "take (length e) s = e" by (simp add: min_def)
  with e(1,2) have "leadingSpace ws s \<noteq> 0" unfolding leadingSpace_pos_iff by blast
  with z show False by simp
qed

lemma TrimSpace_idem: "TrimSpace (TrimSpace s) = TrimSpace s"
proof -
  let ?r1 = "TrimLeft White_Space s"
  let ?r2 = "TrimRight White_Space ?r1"
  obtain k where k: "?r2 = take k ?r1" using TrimRight_take by blast
  have "leadingSpace White_Space ?r2 = 0"
    unfolding k by (rule leadingSpace_take) (rule leadingSpace_TrimLeft)
  then have l: "TrimLeft White_Space ?r2 = ?r2" by (rule TrimLeft_id)
  have "leadingSpace (map rev White_Space) (rev ?r2) = 0"
    by (simp add: TrimRight_def leadingSpace_TrimLeft)
  then have "TrimRight White_Space ?r2 = ?r2"
    by (simp add: TrimRight_def TrimLeft_id)
  with l show ?thesis by (simp add: TrimSpace_def)
qed

lemma leadingSpace_Nil: "leadingSpace ws [] = 0"
  by (induction ws) auto

lemma TrimLeft_Nil: "TrimLeft ws [] = []"
  by (simp add: TrimLeft_id leadingSpace_Nil)

lemma leadingSpace_blank:
  "a \<in> {CHR '' '', CHR 0x09, CHR 0x0A} \<Longrightarrow> leadingSpace White_Space (a # s) = 1"
  unfolding White_Space_def by (elim insertE emptyE) simp_all

lemma TrimLeft_blank:
  "set s \<subseteq> {CHR '' '', CHR 0x09, CHR 0x0A} \<Longrightarrow> TrimLeft White_Space s = []"
proof (induction s)
  case Nil
  show ?case by (rule TrimLeft_Nil)
next
  case (Cons a s)
  then have "a \<in> {CHR '' '', CHR 0x09, CHR 0x0A}" by simp
  then have l: "leadingSpace White_Space (a # s) = 1" by (rule leadingSpace_blank)
  from Cons have "TrimLeft White_Space s = []" by simp
  with l show ?case by (subst TrimLeft.simps) simp
qed

lemma TrimSpace_blank:
  assumes "set s \<subseteq> {CHR '' '', CHR 0x09, CHR 0x0A}"
  shows "TrimSpace s = []"
proof -
  have "TrimLeft White_Space s = []" using assms by (rule TrimLeft_blank)
  then show ?thesis by (simp add: TrimSpace_def TrimRight_def TrimLeft_Nil)
qed

subsection \<open>One round of the loop of TextInTag\<close>

lemma rangeFinds_iff: "rangeFinds vs x \<longleftrightarrow> x \<in> set vs"
  by (induction vs) auto

lemma SelfClosingTagLoop_eq:
  "SelfClosingTagLoop vs tt c = (if Data tt \<in> set vs then c @ [Node_html tt []] else c)"
  by (induction vs) auto

lemma Next_Nil: "input t = [] \<Longrightarrow> Next t = (\<lparr>Type = ErrorToken, Data = [], Attr = []\<rparr>, t)"
  by (simp add: Next_def)

lemma Next_Cons: "input t = tt # rest \<Longrightarrow> Next t = (tt, t\<lparr>input := rest\<rparr>)"
  by (simp add: Next_def)

lemma popTag_eq:
  "popTag tags tag =
     (if tags = [] then Inl (UnexpectedClosingTag tag)
      else if last tags \<noteq> tag then Inl (ExpectingClosingTag (last tags) tag)
      else Inr (butlast tags))"
  by (simp add: popTag_def Let_def last_conv_nth butlast_conv_take)

lemma StartTagLoop_eq:
  "StartTagLoop tagNames vs tt stack c t =
     (if Data tt \<in> set vs then
        (case TextInTag_loop tagNames [Data tt] [] t of
           Inl e \<Rightarrow> Inl e
         | Inr (list, t') \<Rightarrow> TextInTag_loop tagNames stack (c @ [Node_html tt list]) t')
      else TextInTag_loop tagNames (stack @ [Data tt]) c t)"
  by (induction vs) auto

text \<open>One round of the loop of TextInTag, with the loops over the names resolved.\<close>

lemma TextInTag_loop_unfold:
  "TextInTag_loop tagNames stack c t =
     (if stack = [] then Inr (c, t)
      else case Next t of (tt, t') \<Rightarrow>
        (case Type tt of
           ErrorToken \<Rightarrow> Inl (UnclosedTags stack)
         | SelfClosingTagToken \<Rightarrow>
             TextInTag_loop tagNames stack
               (if Data tt \<in> set tagNames then c @ [Node_html tt []] else c) t'
         | StartTagToken \<Rightarrow>
             (if Data tt \<in> set tagNames then
                (case TextInTag_loop tagNames [Data tt] [] t' of
                   Inl e \<Rightarrow> Inl e
                 | Inr (list, t1) \<Rightarrow> TextInTag_loop tagNames stack (c @ [Node_html tt list]) t1)
              else TextInTag_loop tagNames (stack @ [Data tt]) c t')
         | EndTagToken \<Rightarrow>
             (if last stack \<noteq> Data tt then Inl (ExpectingClosingTag (last stack) (Data tt))
              else TextInTag_loop tagNames (butlast stack) c t')
         | TextToken \<Rightarrow>
             TextInTag_loop tagNames stack
               (if TrimSpace (Data tt) \<noteq> []
                then c @ [Node_html (tt\<lparr>Data := TrimSpace (Data tt)\<rparr>) []] else c) t'
         | _ \<Rightarrow> TextInTag_loop tagNames stack c t'))"
  by (subst TextInTag_loop.simps)
     (simp add: SelfClosingTagLoop_eq StartTagLoop_eq popTag_eq Let_def
           split: prod.splits TokenType.splits)

lemma TextInTag_loop_induct [case_names round]:
  assumes round: "\<And>tagNames stack c t.
     (\<And>tt t'. stack \<noteq> [] \<Longrightarrow> Next t = (tt, t') \<Longrightarrow> Type tt = SelfClosingTagToken \<Longrightarrow>
        P tagNames stack (if Data tt \<in> set tagNames then c @ [Node_html tt []] else c) t') \<Longrightarrow>
     (\<And>tt t'. stack \<noteq> [] \<Longrightarrow> Next t = (tt, t') \<Longrightarrow> Type tt = StartTagToken \<Longrightarrow>
        Data tt \<in> set tagNames \<Longrightarrow> P tagNames [Data tt] [] t') \<Longrightarrow>
     (\<And>tt t' list t1. stack \<noteq> [] \<Longrightarrow> Next t = (tt, t') \<Longrightarrow> Type tt = StartTagToken \<Longrightarrow>
        Data tt \<in> set tagNames \<Longrightarrow> TextInTag_loop tagNames [Data tt] [] t' = Inr (list, t1) \<Longrightarrow>
        P tagNames stack (c @ [Node_html tt list]) t1) \<Longrightarrow>
     (\<And>tt t'. stack \<noteq> [] \<Longrightarrow> Next t = (tt, t') \<Longrightarrow> Type tt = StartTagToken \<Longrightarrow>
        Data tt \<notin> set tagNames \<Longrightarrow> P tagNames (stack @ [Data tt]) c t') \<Longrightarrow>
     (\<And>tt t'. stack \<noteq> [] \<Longrightarrow> Next t = (tt, t') \<Longrightarrow> Type tt = EndTagToken \<Longrightarrow>
        last stack = Data tt \<Longrightarrow> P tagNames (butlast stack) c t') \<Longrightarrow>
     (\<And>tt t'. stack \<noteq> [] \<Longrightarrow> Next t = (tt, t') \<Longrightarrow> Type tt = TextToken \<Longrightarrow>
        P tagNames stack
          (if TrimSpace (Data tt) \<noteq> []
           then c @ [Node_html (tt\<lparr>Data := TrimSpace (Data tt)\<rparr>) []] else c) t') \<Longrightarrow>
     (\<And>tt t'. stack \<noteq> [] \<Longrightarrow> Next t = (tt, t') \<Longrightarrow>
        Type tt = CommentToken \<or> Type tt = DoctypeToken \<Longrightarrow> P tagNames stack c t') \<Longrightarrow>
     P tagNames stack c t"
  shows "P tagNames stack c t"
proof -
  let ?Q = "\<lambda>tagNames vs tt stack c t.
      (Data tt \<in> set vs \<longrightarrow> P tagNames [Data tt] [] t \<and>
         (\<forall>list t1. TextInTag_loop tagNames [Data tt] [] t = Inr (list, t1)
            \<longrightarrow> P tagNames stack (c @ [Node_html tt list]) t1)) \<and>
      (Data tt \<notin> set vs \<longrightarrow> P tagNames (stack @ [Data tt]) c t)"
  have "P tagNames stack c t" and "?Q tagNames vs tt stack c t" for vs tt
  proof (induction tagNames stack c t and tagNames vs tt stack c t
         rule: TextInTag_loop_StartTagLoop.induct)
    case (1 tagNames stack c t)
    show ?case
    proof (rule round, goal_cases)
      case (1 tt t')
      with "1.IH"(4)[of tt t'] show ?case by (simp add: SelfClosingTagLoop_eq)
    next
      case (2 tt t')
      with "1.IH"(2)[of tt t'] show ?case by simp
    next
      case (3 tt t' list t1)
      with "1.IH"(2)[of tt t'] show ?case by simp
    next
      case (4 tt t')
      with "1.IH"(2)[of tt t'] show ?case by simp
    next
      case (5 tt t')
      with "1.IH"(3)[of tt t' "butlast stack"] show ?case by (simp add: popTag_eq)
    next
      case (6 tt t')
      with "1.IH"(1)[of tt t', OF _ _ _ refl] show ?case by simp
    next
      case (7 tt t')
      with "1.IH"(5)[of tt t'] "1.IH"(6)[of tt t'] show ?case by auto
    qed
  next
    case (2 tagNames tt stack c t)
    then show ?case by simp
  next
    case (3 tagNames v vs tt stack c t)
    then show ?case by auto
  qed
  then show ?thesis by blast
qed

subsection \<open>What the loop of TextInTag returns\<close>

lemma built_html_Nil: "built_html tagNames []"
  by (simp add: built_html_def)

lemma built_html_Cons:
  "built_html tagNames (Node_html tt list # ys) \<longleftrightarrow>
     kept_html tagNames (Node_html tt list) \<and> built_html tagNames list \<and> built_html tagNames ys"
  by (auto simp: built_html_def)

lemma TextInTag_loop_result:
  "(\<forall>e. TextInTag_loop tagNames stack c t = Inl e \<longrightarrow> builder_error e) \<and>
   (\<forall>out t1. TextInTag_loop tagNames stack c t = Inr (out, t1) \<longrightarrow>
      (\<exists>ys. out = c @ ys \<and> built_html tagNames ys))"
proof (induct tagNames stack c t rule: TextInTag_loop_induct)
  case (round tagNames stack c t)
  obtain tt t' where nx: "Next t = (tt, t')" by force
  note u = TextInTag_loop_unfold[of tagNames stack c t, unfolded nx prod.case]
  show ?case
  proof (cases "stack = []")
    case True
    with u show ?thesis by (simp add: built_html_Nil)
  next
    case False
    note ih = round[OF False nx]
    show ?thesis
    proof (cases "Type tt")
      case ErrorToken
      with u False show ?thesis by (simp add: builder_error_def)
    next
      case TextToken
      have k: "TrimSpace (Data tt) \<noteq> [] \<Longrightarrow>
          kept_html tagNames (Node_html (tt\<lparr>Data := TrimSpace (Data tt)\<rparr>) [])"
        using TextToken by (simp add: kept_html_def TrimSpace_idem)
      from ih(6)[OF TextToken] u False TextToken k show ?thesis
        by (auto simp: built_html_Cons built_html_Nil)
    next
      case StartTagToken
      show ?thesis
      proof (cases "Data tt \<in> set tagNames")
        case in_names: True
        show ?thesis
        proof (cases "TextInTag_loop tagNames [Data tt] [] t'")
          case (Inl e)
          with ih(2)[OF StartTagToken in_names] u False StartTagToken in_names show ?thesis
            by simp
        next
          case (Inr p)
          obtain list t1 where p: "p = (list, t1)" by (cases p)
          from ih(2)[OF StartTagToken in_names] Inr p have bl: "built_html tagNames list"
            by simp
          have "kept_html tagNames (Node_html tt list)"
            using StartTagToken in_names by (simp add: kept_html_def)
          with ih(3)[OF StartTagToken in_names Inr[unfolded p]] bl u False StartTagToken in_names Inr p
          show ?thesis
            by (auto simp: built_html_Cons)
        qed
      next
        case False
        with ih(4)[OF StartTagToken False] u \<open>stack \<noteq> []\<close> StartTagToken show ?thesis
          by simp
      qed
    next
      case EndTagToken
      show ?thesis
      proof (cases "last stack = Data tt")
        case True
        with ih(5)[OF EndTagToken True] u False EndTagToken show ?thesis by simp
      next
        case ne: False
        with u False EndTagToken show ?thesis by (simp add: builder_error_def)
      qed
    next
      case SelfClosingTagToken
      have k: "Data tt \<in> set tagNames \<Longrightarrow> kept_html tagNames (Node_html tt [])"
        using SelfClosingTagToken by (simp add: kept_html_def)
      from ih(1)[OF SelfClosingTagToken] u False SelfClosingTagToken k show ?thesis
        by (auto simp: built_html_Cons built_html_Nil)
    next
      case CommentToken
      with ih(7) u False show ?thesis by simp
    next
      case DoctypeToken
      with ih(7) u False show ?thesis by simp
    qed
  qed
qed

subsection \<open>The loop of parseList\<close>

lemma built_xml_Nil: "built_xml names []"
  by (simp add: built_xml_def)

lemma built_xml_Cons:
  "built_xml names (Node_xml tok list # ys) \<longleftrightarrow>
     kept_xml names (Node_xml tok list) \<and> built_xml names list \<and> built_xml names ys"
  by (auto simp: built_xml_def)

lemma popName_eq:
  "popName names name =
     (if names = [] then Inl (UnexpectedClosingTag name)
      else if last names \<noteq> name then Inl (ExpectingClosingTag (last names) name)
      else Inr (butlast names))"
  by (simp add: popName_def Let_def last_conv_nth butlast_conv_take)

lemma parseList_loop_unfold:
  "parseList_loop names stack c d =
     (if stack = [] then Inr (c, d)
      else case RawToken d of
        Inl e \<Rightarrow> Inl (UnclosedTags stack)
      | Inr (token, d') \<Rightarrow>
          (case token of
             Tok_StartElement t \<Rightarrow> parseList_range names names t False stack c d'
           | Tok_EndElement name \<Rightarrow>
               (if last stack \<noteq> name then Inl (ExpectingClosingTag (last stack) name)
                else parseList_loop names (butlast stack) c d')
           | Tok_CharData s \<Rightarrow>
               parseList_loop names stack
                 (if TrimSpace s \<noteq> [] then c @ [Node_xml (Tok_string (TrimSpace s)) []] else c) d'
           | _ \<Rightarrow> parseList_loop names stack c d'))"
  by (subst parseList_loop.simps)
     (simp add: popName_eq Let_def split: sum.splits prod.splits xml_Token.splits)

lemma parseList_result:
  "(\<forall>e. parseList_loop names stack c d = Inl e \<longrightarrow> builder_error e) \<and>
   (\<forall>out d1. parseList_loop names stack c d = Inr (out, d1) \<longrightarrow>
      (\<exists>ys. out = c @ ys \<and> built_xml names ys))"
  and "set vs \<subseteq> set names \<longrightarrow>
   (\<forall>e. parseList_range names vs t found stack c d = Inl e \<longrightarrow> builder_error e) \<and>
   (\<forall>out d1. parseList_range names vs t found stack c d = Inr (out, d1) \<longrightarrow>
      (\<exists>ys. out = c @ ys \<and> built_xml names ys))"
proof (induct names stack c d and names vs t found stack c d
       rule: parseList_loop_parseList_range.induct)
  case (1 names stack c d)
  note u = parseList_loop_unfold[of names stack c d]
  show ?case
  proof (cases "stack = []")
    case True
    with u show ?thesis by (simp add: built_xml_Nil)
  next
    case False
    then have pos: "0 < length stack" by simp
    show ?thesis
    proof (cases "RawToken d")
      case (Inl e)
      with u False show ?thesis by (simp add: builder_error_def)
    next
      case (Inr p)
      obtain token d' where p: "p = (token, d')" by (cases p)
      note rt = Inr[unfolded p]
      note ih = 1[OF pos rt refl]
      note u' = u[unfolded rt sum.case prod.case]
      show ?thesis
      proof (cases token)
        case (Tok_StartElement x)
        with ih(1)[OF Tok_StartElement] u' False show ?thesis by simp
      next
        case (Tok_EndElement name)
        show ?thesis
        proof (cases "last stack = name")
          case True
          with ih(2)[OF Tok_EndElement, of "butlast stack"] u' False Tok_EndElement show ?thesis
            by (simp add: popName_eq)
        next
          case ne: False
          with u' False Tok_EndElement show ?thesis by (simp add: builder_error_def)
        qed
      next
        case (Tok_CharData s)
        have k: "TrimSpace s \<noteq> [] \<Longrightarrow> kept_xml names (Node_xml (Tok_string (TrimSpace s)) [])"
          by (simp add: kept_xml_def TrimSpace_idem)
        from ih(3)[OF Tok_CharData refl] u' False Tok_CharData k show ?thesis
          by (auto simp: built_xml_Cons built_xml_Nil)
      next
        case (Tok_Comment s)
        with ih(4)[OF Tok_Comment] u' False show ?thesis by simp
      next
        case (Tok_ProcInst a b)
        with ih(5)[OF Tok_ProcInst] u' False show ?thesis by simp
      next
        case (Tok_Directive s)
        with ih(6)[OF Tok_Directive] u' False show ?thesis by simp
      next
        case (Tok_string s)
        with ih(7)[OF Tok_string] u' False show ?thesis by simp
      qed
    qed
  qed
next
  case (2 names t found stack c d)
  then show ?case by simp
next
  case (3 names v vs t found stack c d)
  show ?case
  proof (cases "v = Name t")
    case False
    with 3(3) show ?thesis by simp
  next
    case True
    show ?thesis
    proof (cases "parseList_loop names [Name t] [] d")
      case (Inl e)
      with 3(1)[OF True] True show ?thesis by simp
    next
      case (Inr p)
      obtain list d1 where p: "p = (list, d1)" by (cases p)
      from 3(1)[OF True] Inr p have bl: "built_xml names list" by simp
      have k: "set (v # vs) \<subseteq> set names \<Longrightarrow> kept_xml names (Node_xml (Tok_StartElement t) list)"
        using True by (simp add: kept_xml_def)
      from 3(2)[OF True Inr[unfolded p] refl] bl k Inr p True show ?thesis
        by (auto simp: built_xml_Cons)
    qed
  qed
qed

section \<open>The claims\<close>

subsection \<open>C1: the first match of the example document\<close>

lemma NextTextFilter_doc:
  "NextTextFilter \<lparr>input = doc_html, Err = EOF\<rparr> [''p'', ''a'', ''sup'']
     = Inr (tree_html, \<lparr>input = [], Err = EOF\<rparr>)"
  by code_simp

lemma String_html_tree: "String_html tree_html = Some ''<p><a/>Foo<sup>Bar</sup><a>Baz</a></p>''"
  by code_simp

lemma NextNames_doc:
  "NextNames \<lparr>tokens = doc_xml, err = EOF\<rparr> [local ''p'', local ''a'', local ''sup'']
     = Inr (tree_xml, \<lparr>tokens = [], err = EOF\<rparr>)"
  by code_simp

lemma String_xml_tree: "String_xml tree_xml = Some ''<p><a></a>Foo<sup>Bar</sup><a>Baz</a></p>''"
  by code_simp

text \<open>
  C1, as the code has it. For the tag names \<open>p\<close>, \<open>a\<close>, \<open>sup\<close> and the document
  \<^verbatim>\<open><p><a name="x"/> Foo <sup><u><b> Bar </b></u></sup> <a href="y"> Baz </a></p>\<close>
  the first call succeeds in both packages and uses up the document. The tags \<open>u\<close> and
  \<open>b\<close> leave no node, their trimmed text stands in document order in the scope of the
  nearest matched tag, and the matched tags \<open>a\<close> and \<open>sup\<close> are element children.
  \<^verbatim>\<open>xmlfilter.NextNames\<close> returns a tree that is rendered as
  \<^verbatim>\<open><p><a></a>Foo<sup>Bar</sup><a>Baz</a></p>\<close>; the tree of
  \<^verbatim>\<open>htmlfilter.NextTextFilter\<close> keeps the self-closing token and is rendered as
  \<^verbatim>\<open><p><a/>Foo<sup>Bar</sup><a>Baz</a></p>\<close>.
\<close>

theorem C1_first_match:
  "NextNames \<lparr>tokens = doc_xml, err = EOF\<rparr> [local ''p'', local ''a'', local ''sup'']
     = Inr (tree_xml, \<lparr>tokens = [], err = EOF\<rparr>)
   \<and> String_xml tree_xml = Some ''<p><a></a>Foo<sup>Bar</sup><a>Baz</a></p>''
   \<and> NextTextFilter \<lparr>input = doc_html, Err = EOF\<rparr> [''p'', ''a'', ''sup'']
     = Inr (tree_html, \<lparr>input = [], Err = EOF\<rparr>)
   \<and> String_html tree_html = Some ''<p><a/>Foo<sup>Bar</sup><a>Baz</a></p>''"
  using NextNames_doc String_xml_tree NextTextFilter_doc String_html_tree by blast

text \<open>
  C1 as it is stated gives the rendering \<^verbatim>\<open><p><a></a>Foo<sup>Bar</sup><a>Baz</a></p>\<close>
  for \<^verbatim>\<open>NextTextFilter\<close> too; the tree that \<^verbatim>\<open>NextTextFilter\<close> returns is not
  rendered so.
\<close>

theorem C1_html_rendering_differs:
  "NextTextFilter \<lparr>input = doc_html, Err = EOF\<rparr> [''p'', ''a'', ''sup'']
     = Inr (tree_html, \<lparr>input = [], Err = EOF\<rparr>)
   \<and> String_html tree_html \<noteq> Some ''<p><a></a>Foo<sup>Bar</sup><a>Baz</a></p>''"
proof -
  have "String_html tree_html \<noteq> Some ''<p><a></a>Foo<sup>Bar</sup><a>Baz</a></p>''"
    by (simp add: String_html_tree)
  with NextTextFilter_doc show ?thesis by blast
qed

end
